theory Spec2Isabelle
  imports Main "HOL-Library.Sublist"
begin

section \<open>The pre-push hook of git-lfs: commands/command_pre_push.go\<close>

text \<open>
  Go strings are byte sequences, here \<^typ>\<open>string\<close> (a list of 8-bit characters);
  \<open>==\<close> on them is equality of the byte lists and \<open>len\<close> is \<^const>\<open>length\<close>.
\<close>

subsection \<open>The two functions of package strings that the file calls\<close>

text \<open>
  \<open>strings.TrimSpace\<close> removes leading and trailing white space "as defined by Unicode":
  it decodes one UTF-8 rune at a time from the left (then from the right) and stops at
  the first rune for which \<open>unicode.IsSpace\<close> is false. The runes accepted by
  \<open>unicode.IsSpace\<close> are U+0009..U+000D, U+0020, U+0085, U+00A0, U+1680, U+2000..U+200A,
  U+2028, U+2029, U+202F, U+205F and U+3000; \<open>white_space\<close> lists their UTF-8 encodings.
  A byte sequence that is no valid encoding decodes to U+FFFD, which is no space, so
  matching the encodings byte by byte is what the decoder does.
\<close>

definition white_space :: "string list" where
  "white_space =
    [[CHR 0x09], [CHR 0x0A], [CHR 0x0B], [CHR 0x0C], [CHR 0x0D], [CHR 0x20],
     [CHR 0xC2, CHR 0x85], [CHR 0xC2, CHR 0xA0],
     [CHR 0xE1, CHR 0x9A, CHR 0x80],
     [CHR 0xE2, CHR 0x80, CHR 0x80], [CHR 0xE2, CHR 0x80, CHR 0x81],
     [CHR 0xE2, CHR 0x80, CHR 0x82], [CHR 0xE2, CHR 0x80, CHR 0x83],
     [CHR 0xE2, CHR 0x80, CHR 0x84], [CHR 0xE2, CHR 0x80, CHR 0x85],
     [CHR 0xE2, CHR 0x80, CHR 0x86], [CHR 0xE2, CHR 0x80, CHR 0x87],
     [CHR 0xE2, CHR 0x80, CHR 0x88], [CHR 0xE2, CHR 0x80, CHR 0x89],
     [CHR 0xE2, CHR 0x80, CHR 0x8A],
     [CHR 0xE2, CHR 0x80, CHR 0xA8], [CHR 0xE2, CHR 0x80, CHR 0xA9],
     [CHR 0xE2, CHR 0x80, CHR 0xAF],
     [CHR 0xE2, CHR 0x81, CHR 0x9F],
     [CHR 0xE3, CHR 0x80, CHR 0x80]]"

text \<open>
  \<open>strip encs s\<close> drops from the front of \<open>s\<close> every leading occurrence of one of the
  byte sequences \<open>encs\<close>, and returns what is left from the first position where none
  of them starts.
\<close>

fun strip :: "string list \<Rightarrow> string \<Rightarrow> string" where
  "strip encs [] = []"
| "strip encs (c # cs) =
     (case find (\<lambda>e. prefix e (c # cs)) encs of
        None \<Rightarrow> c # cs
      | Some e \<Rightarrow> strip encs (drop (length e - 1) cs))"

definition TrimLeft :: "string \<Rightarrow> string" where
  "TrimLeft s = strip white_space s"

text \<open>The scan from the right is the scan from the left of the reversed bytes.\<close>

definition TrimRight :: "string \<Rightarrow> string" where
  "TrimRight s = rev (strip (map rev white_space) (rev s))"

definition TrimSpace :: "string \<Rightarrow> string" where
  "TrimSpace s = TrimRight (TrimLeft s)"

text \<open>
  \<open>strings.Split(s, sep)\<close> for a separator of one byte, the only way the file calls it
  (\<open>sep = " "\<close>): the pieces of \<open>s\<close> between the separators, one more than there are
  separators, so that the empty string gives one empty piece.
\<close>

fun Split :: "string \<Rightarrow> char \<Rightarrow> string list" where
  "Split [] sep = [[]]"
| "Split (c # cs) sep =
     (if c = sep then [] # Split cs sep
      else (case Split cs sep of
              [] \<Rightarrow> [[c]]
            | t # ts \<Rightarrow> (c # t) # ts))"

subsection \<open>decodeRefs\<close>

text \<open>
  \<^verbatim>\<open>
  func decodeRefs(input string) (string, string) {
      refs := strings.Split(strings.TrimSpace(input), " ")
      var left, right string
      if len(refs) > 1 { left = refs[1] }
      if len(refs) > 3 { right = "^" + refs[3] }
      return left, right
  }
  \<close>
\<close>

definition decodeRefs :: "string \<Rightarrow> string \<times> string" where
  "decodeRefs input =
     (let refs = Split (TrimSpace input) (CHR '' '');
          left = (if length refs > 1 then refs ! 1 else []);
          right = (if length refs > 3 then ''^'' @ refs ! 3 else [])
      in (left, right))"

subsection \<open>Data and collaborators\<close>

text \<open>
  \<open>locking.Lock\<close> and the scanner's pointer type are declared outside this file; the
  hook reads the fields \<open>Name\<close>, \<open>Email\<close> and \<open>Path\<close> of a lock (\<open>Name\<close> and \<open>Email\<close>
  are compared with the committer's name and email) and the field \<open>Name\<close> of a pointer.
\<close>

record Lock =
  Path :: string
  Name :: string
  Email :: string

record WrappedPointer =
  p_Name :: string

text \<open>
  What the process shows to the outside, in order: the three kinds of output
  (each with its format string and arguments, as the call has them), the calls
  \<open>uploadLeftOrAll(gitscanner, ctx, left)\<close> and \<open>ctx.Await()\<close>, and the two deferred
  \<open>Close\<close> calls.
\<close>

datatype event =
    Printed string "string list"
  | Errored string "string list"
  | Traced string "string list"
  | Uploaded string
  | Awaited
  | Closed_lc
  | Closed_gitscanner

text \<open>
  How the process ends: \<open>os.Exit(n)\<close>, the helpers \<open>Exit(format, args)\<close> and
  \<open>ExitWithError(err)\<close>, a failure inside \<open>ctx.Await()\<close>, or the return of
  \<open>prePushCommand\<close>.
\<close>

datatype outcome =
    OsExit nat
  | Exit string "string list"
  | ExitWithError string
  | AwaitFailed string
  | Returned

text \<open>
  Modelled from the spec: the helpers \<open>Exit\<close> and \<open>ExitWithError\<close> and the body of
  \<open>ctx.Await\<close> are not in the source file. The spec gives exit status 0 to success and a
  non-zero status to an invalid remote, a failed lock fetch, an upload failure and a
  failure during the drain.
\<close>

fun exit_zero :: "outcome \<Rightarrow> bool" where
  "exit_zero (OsExit n) = (n = 0)"
| "exit_zero (Exit fmt as) = False"
| "exit_zero (ExitWithError err) = False"
| "exit_zero (AwaitFailed err) = False"
| "exit_zero Returned = True"

text \<open>
  The collaborators of the hook, none of them in the source file, are the results of
  the calls that the hook makes: the command-line arguments, \<open>git.ValidateRemote\<close>,
  \<open>gitscanner.RemoteForPush\<close>, \<open>cfg.CurrentCommitter\<close>, \<open>locking.NewClient\<close>,
  \<open>lc.SearchLocks\<close> and \<open>uploadLeftOrAll\<close> (an error is \<open>Some\<close> of its message),
  and the value of \<open>cfg.CurrentRemote\<close>.
\<close>

text \<open>
  Modelled from the spec: the identifier \<open>pointers\<close> that the loop ranges over is not
  declared in the source file, and the body of \<open>ctx.Await\<close> is not in it. The spec has
  the first as the tracked objects that the scan collaborator yields for the ref update
  being evaluated, here a function of the trimmed input line, and the second as
  \<open>awaitAll() -> error|nil\<close>, here a function of the local revisions enqueued so far.
\<close>

record env =
  args :: "string list"
  ValidateRemote :: "string \<Rightarrow> string option"
  RemoteForPush :: "string option"
  CurrentCommitter :: "string \<times> string"
  NewClient :: "string option"
  SearchLocks :: "string + Lock list"
  CurrentRemote :: string
  pointers :: "string \<Rightarrow> WrappedPointer list"
  uploadLeftOrAll :: "string \<Rightarrow> string option"
  Await :: "string list \<Rightarrow> string option"

subsection \<open>prePushCommand\<close>

definition Repeat :: "string \<Rightarrow> nat \<Rightarrow> string" where
  "Repeat s n = concat (replicate n s)"

definition prePushDeleteBranch :: string where
  "prePushDeleteBranch = Repeat ''0'' 40"

text \<open>
  Lines 43 to 77: the checks before the loop. Each failure ends the process; when all
  pass, the result is the lock list that \<open>SearchLocks\<close> returned. The calls
  \<open>requireGitVersion()\<close>, \<open>newUploadContext\<close> and \<open>lfs.NewGitScanner\<close> have no result that
  the hook tests, and are taken to return.
\<close>

definition startup :: "env \<Rightarrow> (event list \<times> outcome) + Lock list" where
  "startup e =
     (if length (args e) = 0 then
        Inl ([Printed (''This should be run through Git'' @ [CHR 0x27] @
                ''s pre-push hook.  Run `git lfs update` to install it.'') []], OsExit 1)
      else case ValidateRemote e (args e ! 0) of
        Some err \<Rightarrow> Inl ([], Exit ''Invalid remote name %q'' [args e ! 0])
      | None \<Rightarrow>
     (case RemoteForPush e of
        Some err \<Rightarrow> Inl ([], ExitWithError err)
      | None \<Rightarrow>
     (case NewClient e of
        Some err \<Rightarrow> Inl ([], Exit ''Unable to create lock system: %v'' [err])
      | None \<Rightarrow>
     (case SearchLocks e of
        Inl err \<Rightarrow> Inl ([], Exit ''error finding locks: %s'' [err])
      | Inr locks \<Rightarrow> Inr locks))))"

text \<open>
  Lines 78 to 81: \<^verbatim>\<open>for _, l := range locks { lockSet[l.Name] = l }\<close>.
  A later lock replaces an earlier one under the same key.
\<close>

definition lockSet :: "Lock list \<Rightarrow> (string \<rightharpoonup> Lock)" where
  "lockSet locks = fold (\<lambda>l m. m(Name l \<mapsto> l)) locks Map.empty"

text \<open>The two slices that the loop appends to (lines 82 and 83).\<close>

record accum =
  lockConflicts :: "string list"
  myLocks :: "string list"

definition no_locks_seen :: accum where
  "no_locks_seen = \<lparr>lockConflicts = [], myLocks = []\<rparr>"

text \<open>
  Lines 99 to 107:
  \<^verbatim>\<open>
  for _, p := range pointers {
      if l, ok := lockSet[p.Name]; ok {
          if l.Name == name && l.Email == email {
              myLocks = append(myLocks, l.Path)
          } else {
              lockConflicts = append(lockConflicts, p.Name)
          }
      }
  }
  \<close>
\<close>

fun check_locks ::
  "(string \<rightharpoonup> Lock) \<Rightarrow> string \<Rightarrow> string \<Rightarrow> WrappedPointer list \<Rightarrow> accum \<Rightarrow> accum" where
  "check_locks ls name email [] acc = acc"
| "check_locks ls name email (p # ps) acc =
     check_locks ls name email ps
       (case ls (p_Name p) of
          None \<Rightarrow> acc
        | Some l \<Rightarrow>
            if Name l = name \<and> Email l = email
            then acc\<lparr>myLocks := myLocks acc @ [Path l]\<rparr>
            else acc\<lparr>lockConflicts := lockConflicts acc @ [p_Name p]\<rparr>)"

text \<open>
  Lines 86 to 120, the body of the loop for one scanned line \<open>raw\<close>: the events it
  adds, and either the way the process ends there or the two slices after it.
\<close>

definition loop_body ::
  "env \<Rightarrow> (string \<rightharpoonup> Lock) \<Rightarrow> string \<Rightarrow> accum \<Rightarrow> event list \<times> (outcome + accum)" where
  "loop_body e ls raw acc =
     (let line = TrimSpace raw in
      if length line = 0 then ([], Inr acc)
      else
        let left = fst (decodeRefs line) in
        if left = prePushDeleteBranch then ([Traced ''pre-push: %s'' [line]], Inr acc)
        else
          let acc' = check_locks ls (fst (CurrentCommitter e)) (snd (CurrentCommitter e))
                       (pointers e line) acc
          in
          if length (lockConflicts acc') > 0 then
            ([Traced ''pre-push: %s'' [line],
              Errored ''Some files are locked in %s...%s'' [left, CurrentRemote e]]
             @ map (\<lambda>file. Errored ''* %s'' [file]) (lockConflicts acc'),
             Inl (OsExit 1))
          else
            (case uploadLeftOrAll e left of
               Some err \<Rightarrow>
                 ([Traced ''pre-push: %s'' [line], Uploaded left,
                   Printed ''Error scanning for Git LFS files in %q'' [left]],
                  Inl (ExitWithError err))
             | None \<Rightarrow>
                 ([Traced ''pre-push: %s'' [line], Uploaded left], Inr acc')))"

text \<open>
  Lines 85 to 121: \<open>for scanner.Scan()\<close> over standard input, given as the list of the
  lines that \<open>scanner.Text()\<close> yields, in order. The loop stops at the first line that
  ends the process.
\<close>

fun read_loop ::
  "env \<Rightarrow> (string \<rightharpoonup> Lock) \<Rightarrow> string list \<Rightarrow> accum \<Rightarrow> event list \<times> (outcome + accum)" where
  "read_loop e ls [] acc = ([], Inr acc)"
| "read_loop e ls (raw # rest) acc =
     (case loop_body e ls raw acc of
        (evs, Inl out) \<Rightarrow> (evs, Inl out)
      | (evs, Inr acc') \<Rightarrow>
          (case read_loop e ls rest acc' of (evs', r) \<Rightarrow> (evs @ evs', r)))"

text \<open>The local revisions handed to \<open>uploadLeftOrAll\<close>, in the order of the calls.\<close>

fun uploads_of :: "event list \<Rightarrow> string list" where
  "uploads_of [] = []"
| "uploads_of (Uploaded left # evs) = left # uploads_of evs"
| "uploads_of (ev # evs) = uploads_of evs"

text \<open>
  Lines 123 to 131, after the loop: the report of the committer's own locks, then
  \<open>ctx.Await()\<close>; when that returns, the function returns and the deferred
  \<open>lc.Close()\<close> and \<open>gitscanner.Close()\<close> run, last deferred first.
\<close>

definition owned_report :: "accum \<Rightarrow> event list" where
  "owned_report acc =
     (if length (myLocks acc) > 0
      then Printed ''Pushing your locked files:'' []
           # map (\<lambda>file. Printed ''* %s'' [file]) (myLocks acc)
      else [])"

definition drain :: "env \<Rightarrow> event list \<Rightarrow> accum \<Rightarrow> event list \<times> outcome" where
  "drain e evs acc =
     (case Await e (uploads_of evs) of
        Some err \<Rightarrow> (evs @ owned_report acc @ [Awaited], AwaitFailed err)
      | None \<Rightarrow>
          (evs @ owned_report acc @ [Awaited, Closed_lc, Closed_gitscanner], Returned))"

definition prePushCommand :: "env \<Rightarrow> string list \<Rightarrow> event list \<times> outcome" where
  "prePushCommand e stdin =
     (case startup e of
        Inl ended \<Rightarrow> ended
      | Inr locks \<Rightarrow>
          (case read_loop e (lockSet locks) stdin no_locks_seen of
             (evs, Inl out) \<Rightarrow> (evs, out)
           | (evs, Inr acc) \<Rightarrow> drain e evs acc))"

subsection \<open>Input lines as the spec describes them\<close>

text \<open>
  The spec's words for a line: tokens separated by single spaces. \<open>Join ts sep\<close> writes
  the tokens \<open>ts\<close> with \<open>sep\<close> between each two, as \<open>strings.Join\<close> does. It is used only
  to state what \<open>decodeRefs\<close> returns; the hook does not call it.
\<close>

fun Join :: "string list \<Rightarrow> char \<Rightarrow> string" where
  "Join [] sep = []"
| "Join [t] sep = t"
| "Join (t # u # ts) sep = t @ sep # Join (u # ts) sep"

text \<open>
  A line is evaluated by the loop (it reaches the lock check) when it is not blank
  and its local revision is not the deletion sentinel.
\<close>

definition evaluated :: "string \<Rightarrow> bool" where
  "evaluated raw =
     (length (TrimSpace raw) \<noteq> 0 \<and> fst (decodeRefs (TrimSpace raw)) \<noteq> prePushDeleteBranch)"

text \<open>The conflicting paths that one evaluation of the pointers \<open>ps\<close> finds.\<close>

definition conflicts_of :: "env \<Rightarrow> (string \<rightharpoonup> Lock) \<Rightarrow> WrappedPointer list \<Rightarrow> string list" where
  "conflicts_of e ls ps =
     lockConflicts (check_locks ls (fst (CurrentCommitter e)) (snd (CurrentCommitter e)) ps
                      no_locks_seen)"

subsection \<open>Concrete runs\<close>

text \<open>
  A run for the remote \<open>origin\<close> by the committer bob in which every collaborator
  succeeds, no lock is registered and no object is touched; the other runs change it.
\<close>

definition quiet_env :: env where
  "quiet_env =
     \<lparr>args = [''origin''],
      ValidateRemote = (\<lambda>remote. None),
      RemoteForPush = None,
      CurrentCommitter = (''bob'', ''bob@example.com''),
      NewClient = None,
      SearchLocks = Inr [],
      CurrentRemote = ''origin'',
      pointers = (\<lambda>line. []),
      uploadLeftOrAll = (\<lambda>left. None),
      Await = (\<lambda>lefts. None)\<rparr>"

definition line_main :: string where
  "line_main = ''refs/heads/main abc123 refs/heads/main def456''"

definition line_topic :: string where
  "line_topic = ''refs/heads/topic 111aaa refs/heads/topic 222bbb''"

definition line_delete :: string where
  "line_delete =
     ''refs/heads/topic 0000000000000000000000000000000000000000 refs/heads/topic def456''"

text \<open>The file \<open>big.psd\<close> is touched by the push of \<open>main\<close> and locked by alice.\<close>

definition alice_lock :: Lock where
  "alice_lock = \<lparr>Path = ''big.psd'', Name = ''alice'', Email = ''alice@example.com''\<rparr>"

definition alice_env :: env where
  "alice_env =
     quiet_env\<lparr>SearchLocks := Inr [alice_lock],
               pointers := (\<lambda>line. if line = line_main then [\<lparr>p_Name = ''big.psd''\<rparr>] else [])\<rparr>"

text \<open>
  A lock whose \<open>Name\<close> field is the name of the object that the push of \<open>topic\<close>
  touches, held under an email that is not bob's: the loop finds it.
\<close>

definition named_lock :: Lock where
  "named_lock = \<lparr>Path = ''big.psd'', Name = ''big.psd'', Email = ''alice@example.com''\<rparr>"

definition named_env :: env where
  "named_env =
     quiet_env\<lparr>SearchLocks := Inr [named_lock],
               pointers := (\<lambda>line. if line = line_topic then [\<lparr>p_Name = ''big.psd''\<rparr>] else [])\<rparr>"

text \<open>
  A lock that the loop takes for bob's own (its \<open>Name\<close> and \<open>Email\<close> are bob's, and
  the touched object is named as its \<open>Name\<close>), in a run whose drain fails.
\<close>

definition bob_lock :: Lock where
  "bob_lock = \<lparr>Path = ''mine.psd'', Name = ''bob'', Email = ''bob@example.com''\<rparr>"

definition bob_env :: env where
  "bob_env =
     quiet_env\<lparr>SearchLocks := Inr [bob_lock],
               pointers := (\<lambda>line. [\<lparr>p_Name = ''bob''\<rparr>]),
               Await := (\<lambda>lefts. Some ''transfer failed'')\<rparr>"

text \<open>A run in which the scan of \<open>abc123\<close> fails.\<close>

definition failing_scan_env :: env where
  "failing_scan_env =
     quiet_env\<lparr>uploadLeftOrAll :=
                 (\<lambda>left. if left = ''abc123'' then Some ''scan failed'' else None)\<rparr>"

text \<open>A line of one token.\<close>

definition line_short :: string where
  "line_short = ''refs/heads/main''"

section \<open>Properties\<close>

subsection \<open>Trimming and splitting\<close>

lemma strip_suffix: "suffix (strip encs s) s"
proof (induction encs s rule: strip.induct)
  case (1 encs) show ?case by simp
next
  case (2 encs c cs)
  show ?case
  proof (cases "find (\<lambda>e. prefix e (c # cs)) encs")
    case None then show ?thesis by simp
  next
    case (Some e)
    have "suffix (strip encs (drop (length e - 1) cs)) (drop (length e - 1) cs)"
      using 2 Some by simp
    moreover have "suffix (drop (length e - 1) cs) (c # cs)"
      by (meson suffix_drop suffix_Cons suffix_order.trans)
    ultimately show ?thesis using Some by (auto intro: suffix_order.trans)
  qed
qed

lemma strip_fixed: "find (\<lambda>e. prefix e s) encs = None \<Longrightarrow> strip encs s = s"
  by (cases s) simp_all

lemma strip_no_prefix: "[] \<notin> set encs \<Longrightarrow> find (\<lambda>e. prefix e (strip encs s)) encs = None"
proof (induction encs s rule: strip.induct)
  case (1 encs) then show ?case by (auto simp: find_None_iff)
next
  case (2 encs c cs)
  then show ?case by (cases "find (\<lambda>e. prefix e (c # cs)) encs") auto
qed

lemma white_space_nonempty: "[] \<notin> set white_space" "[] \<notin> set (map rev white_space)"
  by (simp_all add: white_space_def)

lemma TrimLeft_fixed: "find (\<lambda>e. prefix e s) white_space = None \<Longrightarrow> TrimLeft s = s"
  by (simp add: TrimLeft_def strip_fixed)

lemma TrimRight_prefix: "prefix (TrimRight s) s"
  using strip_suffix [of "map rev white_space" "rev s"]
  by (simp add: TrimRight_def suffix_to_prefix)

lemma strip_idem: "[] \<notin> set encs \<Longrightarrow> strip encs (strip encs s) = strip encs s"
  by (rule strip_fixed) (rule strip_no_prefix)

lemma TrimRight_TrimRight: "TrimRight (TrimRight s) = TrimRight s"
  using strip_idem [OF white_space_nonempty(2), of "rev s"] by (simp add: TrimRight_def)

lemma TrimLeft_TrimSpace: "TrimLeft (TrimSpace s) = TrimSpace s"
proof (rule TrimLeft_fixed)
  have none: "find (\<lambda>e. prefix e (TrimLeft s)) white_space = None"
    by (simp add: TrimLeft_def strip_no_prefix white_space_nonempty)
  have "prefix (TrimSpace s) (TrimLeft s)"
    by (simp add: TrimSpace_def TrimRight_prefix)
  then have "\<And>e. prefix e (TrimSpace s) \<Longrightarrow> prefix e (TrimLeft s)"
    by (meson prefix_order.trans)
  with none show "find (\<lambda>e. prefix e (TrimSpace s)) white_space = None"
    by (auto simp: find_None_iff)
qed

lemma TrimSpace_idem: "TrimSpace (TrimSpace s) = TrimSpace s"
proof -
  have "TrimSpace (TrimSpace s) = TrimRight (TrimSpace s)"
    by (simp add: TrimSpace_def [of "TrimSpace s"] TrimLeft_TrimSpace)
  also have "\<dots> = TrimSpace s"
    by (simp add: TrimSpace_def TrimRight_TrimRight)
  finally show ?thesis .
qed

text \<open>
  White space around a string does not change what is left after trimming: no encoding
  of \<open>white_space\<close> is the start or the end of another, and none of them begins with a
  byte that continues another.
\<close>

lemma strip_drop_enc:
  assumes "e \<in> set encs" and "e \<noteq> []"
    and "\<forall>a\<in>set encs. \<forall>b\<in>set encs. prefix a b \<longrightarrow> a = b"
  shows "strip encs (e @ t) = strip encs t"
proof -
  obtain c cs where e: "e = c # cs" using assms(2) by (cases e) auto
  have "find (\<lambda>a. prefix a (c # cs @ t)) encs \<noteq> None"
    using assms(1) e by (auto simp: find_None_iff)
  then obtain a where found: "find (\<lambda>a. prefix a (c # cs @ t)) encs = Some a" by blast
  then have a: "a \<in> set encs" "prefix a (e @ t)"
    by (auto simp: find_Some_iff e)
  have "prefix a e \<or> prefix e a"
    using a(2) prefix_same_cases [of a "e @ t" e] by simp
  then have "a = e" using assms(1,3) a(1) by blast
  then show ?thesis using found by (simp add: e)
qed

lemma strip_concat:
  assumes "set ws \<subseteq> set encs" and "[] \<notin> set encs"
    and "\<forall>a\<in>set encs. \<forall>b\<in>set encs. prefix a b \<longrightarrow> a = b"
  shows "strip encs (concat ws @ t) = strip encs t"
  using assms(1)
proof (induction ws)
  case Nil show ?case by simp
next
  case (Cons w ws)
  have "w \<in> set encs" "w \<noteq> []" using Cons.prems assms(2) by auto
  then have "strip encs (w @ concat ws @ t) = strip encs (concat ws @ t)"
    using strip_drop_enc assms(3) by blast
  then show ?case using Cons by simp
qed

lemma prefix_not_continued:
  assumes "e \<in> set encs" and "r = [] \<or> hd r \<notin> set (concat (map tl encs))"
    and "prefix e ((c # cs) @ r)"
  shows "prefix e (c # cs)"
proof (rule ccontr)
  assume no: "\<not> prefix e (c # cs)"
  from assms(3) have "prefix e (c # cs) \<or> (\<exists>us. e = (c # cs) @ us \<and> prefix us r)"
    by (simp only: prefix_append)
  with no obtain us where us: "e = (c # cs) @ us" "prefix us r"
    by blast
  have "us \<noteq> []" using no us(1) by auto
  then have "r \<noteq> []" "hd us = hd r" using us(2) by (auto simp: prefix_def)
  moreover have "hd us \<in> set (tl e)" using us(1) \<open>us \<noteq> []\<close> by simp
  ultimately show False using assms(1,2) by auto
qed

lemma strip_append:
  assumes "r = [] \<or> hd r \<notin> set (concat (map tl encs))"
  shows "strip encs (s @ r) = (if strip encs s = [] then strip encs r else strip encs s @ r)"
  using assms
proof (induction encs s rule: strip.induct)
  case (1 encs) show ?case by simp
next
  case (2 encs c cs)
  have "\<And>e. e \<in> set encs \<Longrightarrow> prefix e ((c # cs) @ r) = prefix e (c # cs)"
    using prefix_not_continued [OF _ "2.prems"] by (metis prefix_prefix)
  then have same: "find (\<lambda>e. prefix e (c # cs @ r)) encs = find (\<lambda>e. prefix e (c # cs)) encs"
    by (intro find_cong) simp_all
  show ?case
  proof (cases "find (\<lambda>e. prefix e (c # cs)) encs")
    case None
    then show ?thesis using same by simp
  next
    case (Some e)
    then have "prefix e (c # cs)" by (auto simp: find_Some_iff)
    then have "length e - 1 \<le> length cs" by (auto dest: prefix_length_le)
    then have "drop (length e - 1) (cs @ r) = drop (length e - 1) cs @ r" by simp
    then show ?thesis using "2.IH" [OF Some "2.prems"] same Some by simp
  qed
qed

lemma white_space_prefix_free:
  "\<forall>a\<in>set white_space. \<forall>b\<in>set white_space. prefix a b \<longrightarrow> a = b"
  by (simp add: white_space_def)

lemma white_space_suffix_free:
  "\<forall>a\<in>set (map rev white_space). \<forall>b\<in>set (map rev white_space). prefix a b \<longrightarrow> a = b"
  by (simp add: white_space_def)

lemma white_space_heads:
  "e \<in> set white_space \<Longrightarrow> hd e \<notin> set (concat (map tl white_space))"
  by (auto simp: white_space_def)

lemma strip_decompose:
  assumes "[] \<notin> set encs"
  shows "\<exists>ws. set ws \<subseteq> set encs \<and> s = concat ws @ strip encs s"
  using assms
proof (induction encs s rule: strip.induct)
  case (1 encs)
  have "set [] \<subseteq> set encs \<and> [] = concat [] @ strip encs []" by simp
  then show ?case by blast
next
  case (2 encs c cs)
  show ?case
  proof (cases "find (\<lambda>e. prefix e (c # cs)) encs")
    case None
    then have "set [] \<subseteq> set encs \<and> c # cs = concat [] @ strip encs (c # cs)" by simp
    then show ?thesis by blast
  next
    case (Some e)
    then have e: "e \<in> set encs" "prefix e (c # cs)" by (auto simp: find_Some_iff)
    then have "e \<noteq> []" using "2.prems" by auto
    then have split: "c # cs = e @ drop (length e - 1) cs"
      using e(2) by (cases e) (auto simp: prefix_def)
    define t where "t = drop (length e - 1) cs"
    from "2.IH" [OF Some "2.prems"] obtain ws where
      ws: "set ws \<subseteq> set encs" "t = concat ws @ strip encs t"
      unfolding t_def by blast
    have rest: "strip encs (c # cs) = strip encs t"
      using Some by (simp add: t_def)
    have "c # cs = e @ t"
      using split by (simp add: t_def)
    also have "\<dots> = e @ concat ws @ strip encs t"
      using ws(2) by simp
    also have "\<dots> = concat (e # ws) @ strip encs (c # cs)"
      unfolding rest by simp
    finally have "set (e # ws) \<subseteq> set encs \<and> c # cs = concat (e # ws) @ strip encs (c # cs)"
      using ws(1) e(1) by simp
    then show ?thesis by blast
  qed
qed

lemma concat_white_space_head:
  assumes "set rs \<subseteq> set white_space"
  shows "concat rs = [] \<or> hd (concat rs) \<notin> set (concat (map tl white_space))"
proof (cases rs)
  case Nil then show ?thesis by simp
next
  case (Cons w ws)
  then have w: "w \<in> set white_space" using assms by simp
  then have "w \<noteq> []" using white_space_nonempty(1) by auto
  then have "hd (concat rs) = hd w" using Cons by simp
  then show ?thesis using white_space_heads [OF w] by simp
qed

lemma TrimLeft_padding:
  "set ls \<subseteq> set white_space \<Longrightarrow> TrimLeft (concat ls @ t) = TrimLeft t"
  unfolding TrimLeft_def
  by (rule strip_concat [OF _ white_space_nonempty(1) white_space_prefix_free])

lemma TrimRight_padding:
  assumes "set rs \<subseteq> set white_space"
  shows "TrimRight (t @ concat rs) = TrimRight t"
proof -
  have "set (map rev (rev rs)) \<subseteq> set (map rev white_space)"
    using assms by auto
  from strip_concat [OF this white_space_nonempty(2) white_space_suffix_free, of "rev t"]
  show ?thesis by (simp add: TrimRight_def rev_concat)
qed

lemma TrimSpace_padding:
  assumes "set ls \<subseteq> set white_space" and "set rs \<subseteq> set white_space"
  shows "TrimSpace (concat ls @ s @ concat rs) = TrimSpace s"
proof -
  have all: "TrimLeft (concat rs) = []"
    using TrimLeft_padding [OF assms(2), of "[]"] by (simp add: TrimLeft_def)
  have "TrimLeft (concat ls @ s @ concat rs) = TrimLeft (s @ concat rs)"
    by (rule TrimLeft_padding [OF assms(1)])
  also have "\<dots> = (if TrimLeft s = [] then [] else TrimLeft s @ concat rs)"
    using strip_append [OF concat_white_space_head [OF assms(2)], of s] all
    by (simp add: TrimLeft_def)
  finally have left: "TrimLeft (concat ls @ s @ concat rs) =
      (if TrimLeft s = [] then [] else TrimLeft s @ concat rs)" .
  show ?thesis
  proof (cases "TrimLeft s = []")
    case True
    then show ?thesis by (simp add: TrimSpace_def left)
  next
    case False
    then show ?thesis by (simp add: TrimSpace_def left TrimRight_padding [OF assms(2)])
  qed
qed

lemma TrimSpace_decompose:
  "\<exists>ls rs. set ls \<subseteq> set white_space \<and> set rs \<subseteq> set white_space
     \<and> s = concat ls @ TrimSpace s @ concat rs"
proof -
  from strip_decompose [OF white_space_nonempty(1), of s] obtain ls where
    ls: "set ls \<subseteq> set white_space" "s = concat ls @ TrimLeft s"
    by (auto simp: TrimLeft_def)
  from strip_decompose [OF white_space_nonempty(2), of "rev (TrimLeft s)"] obtain ws where
    ws: "set ws \<subseteq> set (map rev white_space)"
      "rev (TrimLeft s) = concat ws @ strip (map rev white_space) (rev (TrimLeft s))"
    by blast
  have "rev (rev (TrimLeft s)) = rev (concat ws @ strip (map rev white_space) (rev (TrimLeft s)))"
    using ws(2) by simp
  then have right: "TrimLeft s = TrimSpace s @ concat (map rev (rev ws))"
    by (simp add: TrimSpace_def TrimRight_def rev_concat)
  have "set (map rev (rev ws)) \<subseteq> set white_space"
    using ws(1) by auto
  then show ?thesis using ls right by metis
qed

lemma TrimSpace_no_space:
  assumes "e \<in> set white_space"
  shows "\<not> prefix e (TrimSpace s) \<and> \<not> suffix e (TrimSpace s)"
proof -
  have "find (\<lambda>e. prefix e (TrimSpace s)) white_space = None"
    using TrimLeft_TrimSpace [of s] strip_no_prefix [OF white_space_nonempty(1), of "TrimSpace s"]
    by (simp add: TrimLeft_def)
  then have front: "\<not> prefix e (TrimSpace s)"
    using assms by (auto simp: find_None_iff)
  have "find (\<lambda>e. prefix e (rev (TrimSpace s))) (map rev white_space) = None"
    using strip_no_prefix [OF white_space_nonempty(2), of "rev (TrimLeft s)"]
    by (simp add: TrimSpace_def TrimRight_def)
  then have "\<not> prefix (rev e) (rev (TrimSpace s))"
    using assms by (auto simp: find_None_iff)
  then have "\<not> suffix e (TrimSpace s)"
    by (simp add: suffix_to_prefix)
  with front show ?thesis by simp
qed

lemma Split_no_sep: "sep \<notin> set t \<Longrightarrow> Split t sep = [t]"
  by (induction t) auto

lemma Split_token: "sep \<notin> set t \<Longrightarrow> Split (t @ sep # r) sep = t # Split r sep"
  by (induction t) auto

lemma Split_Join: "ts \<noteq> [] \<Longrightarrow> \<forall>t\<in>set ts. sep \<notin> set t \<Longrightarrow> Split (Join ts sep) sep = ts"
proof (induction ts sep rule: Join.induct)
  case (1 sep) then show ?case by simp
next
  case (2 t sep) then show ?case by (simp add: Split_no_sep)
next
  case (3 t u ts sep) then show ?case by (simp add: Split_token)
qed

lemma TrimSpace_line_main: "TrimSpace line_main = line_main"
  by (simp add: line_main_def TrimSpace_def TrimLeft_def TrimRight_def white_space_def)

subsection \<open>The loop\<close>

lemma prePushDeleteBranch_value:
  "prePushDeleteBranch = ''0000000000000000000000000000000000000000''"
  by (simp add: prePushDeleteBranch_def Repeat_def eval_nat_numeral)

lemma decodeRefs_blank: "TrimSpace raw = [] \<Longrightarrow> fst (decodeRefs raw) = []"
  by (simp add: decodeRefs_def)

lemma deleted_not_blank:
  "fst (decodeRefs raw) = prePushDeleteBranch \<Longrightarrow> TrimSpace raw \<noteq> []"
  using decodeRefs_blank [of raw] by (auto simp: prePushDeleteBranch_value)

lemma decodeRefs_TrimSpace: "decodeRefs (TrimSpace s) = decodeRefs s"
  by (simp add: decodeRefs_def TrimSpace_idem)

lemma uploads_of_append: "uploads_of (xs @ ys) = uploads_of xs @ uploads_of ys"
  by (induction xs rule: uploads_of.induct) simp_all

lemma uploads_of_Errored: "uploads_of (map (\<lambda>file. Errored fmt [file]) fs) = []"
  by (induction fs) simp_all

lemma uploads_of_Printed: "uploads_of (map (\<lambda>file. Printed fmt [file]) fs) = []"
  by (induction fs) simp_all

lemma uploads_of_owned_report: "uploads_of (owned_report acc) = []"
  by (simp add: owned_report_def uploads_of_Printed)

lemma check_locks_lockConflicts:
  "lockConflicts (check_locks ls name email ps acc) =
     lockConflicts acc @
     map p_Name (filter (\<lambda>p. case ls (p_Name p) of None \<Rightarrow> False
                                | Some l \<Rightarrow> \<not> (Name l = name \<and> Email l = email)) ps)"
  by (induction ps arbitrary: acc) (auto split: option.splits)

lemma conflicts_of_append:
  "lockConflicts (check_locks ls (fst (CurrentCommitter e)) (snd (CurrentCommitter e)) ps acc) =
     lockConflicts acc @ conflicts_of e ls ps"
  unfolding conflicts_of_def
  by (subst check_locks_lockConflicts, subst check_locks_lockConflicts)
     (simp add: no_locks_seen_def)

lemma check_locks_empty: "check_locks Map.empty name email ps acc = acc"
  by (induction ps) simp_all

lemma loop_body_deleted:
  "fst (decodeRefs raw) = prePushDeleteBranch \<Longrightarrow>
   loop_body e ls raw acc = ([Traced ''pre-push: %s'' [TrimSpace raw]], Inr acc)"
  using deleted_not_blank [of raw] by (simp add: loop_body_def decodeRefs_TrimSpace)

lemma loop_body_not_evaluated:
  "\<not> evaluated raw \<Longrightarrow> \<exists>evs. loop_body e ls raw acc = (evs, Inr acc) \<and> uploads_of evs = [] \<and> Awaited \<notin> set evs"
  by (auto simp: evaluated_def loop_body_def Let_def)

lemma loop_body_conflict:
  assumes "evaluated raw"
    and "acc' = check_locks ls (fst (CurrentCommitter e)) (snd (CurrentCommitter e))
                  (pointers e (TrimSpace raw)) acc"
    and "lockConflicts acc' \<noteq> []"
  shows "loop_body e ls raw acc =
           ([Traced ''pre-push: %s'' [TrimSpace raw],
             Errored ''Some files are locked in %s...%s''
               [fst (decodeRefs (TrimSpace raw)), CurrentRemote e]]
            @ map (\<lambda>file. Errored ''* %s'' [file]) (lockConflicts acc'),
            Inl (OsExit 1))"
  using assms by (simp add: evaluated_def loop_body_def Let_def)

lemma loop_body_upload:
  assumes "evaluated raw"
    and "acc' = check_locks ls (fst (CurrentCommitter e)) (snd (CurrentCommitter e))
                  (pointers e (TrimSpace raw)) acc"
    and "lockConflicts acc' = []"
  shows "loop_body e ls raw acc =
           (case uploadLeftOrAll e (fst (decodeRefs (TrimSpace raw))) of
              Some err \<Rightarrow>
                ([Traced ''pre-push: %s'' [TrimSpace raw],
                  Uploaded (fst (decodeRefs (TrimSpace raw))),
                  Printed ''Error scanning for Git LFS files in %q''
                    [fst (decodeRefs (TrimSpace raw))]],
                 Inl (ExitWithError err))
            | None \<Rightarrow>
                ([Traced ''pre-push: %s'' [TrimSpace raw],
                  Uploaded (fst (decodeRefs (TrimSpace raw)))], Inr acc'))"
  using assms by (simp add: evaluated_def loop_body_def Let_def split: option.splits)

lemma loop_body_no_Awaited: "loop_body e ls raw acc = (evs, r) \<Longrightarrow> Awaited \<notin> set evs"
  by (auto simp: loop_body_def Let_def split: if_splits option.splits)

lemma read_loop_no_Awaited: "read_loop e ls stdin acc = (evs, r) \<Longrightarrow> Awaited \<notin> set evs"
proof (induction stdin arbitrary: acc evs r)
  case Nil then show ?case by simp
next
  case (Cons raw rest)
  obtain evs1 r1 where b: "loop_body e ls raw acc = (evs1, r1)" by (cases "loop_body e ls raw acc")
  show ?case
  proof (cases r1)
    case (Inl out)
    with b Cons.prems show ?thesis using loop_body_no_Awaited [OF b] by simp
  next
    case (Inr acc1)
    obtain evs2 r2 where l: "read_loop e ls rest acc1 = (evs2, r2)" by (cases "read_loop e ls rest acc1")
    with b Inr Cons.prems have "evs = evs1 @ evs2" by simp
    then show ?thesis using loop_body_no_Awaited [OF b] Cons.IH [OF l] by simp
  qed
qed

lemma read_loop_append:
  "read_loop e ls (pre @ post) acc =
     (case read_loop e ls pre acc of
        (evs, Inl out) \<Rightarrow> (evs, Inl out)
      | (evs, Inr acc') \<Rightarrow> (case read_loop e ls post acc' of (evs', r) \<Rightarrow> (evs @ evs', r)))"
  by (induction pre arbitrary: acc) (auto split: prod.splits sum.splits)

lemma prePushCommand_run:
  "startup e = Inr locks \<Longrightarrow>
   prePushCommand e stdin =
     (case read_loop e (lockSet locks) stdin no_locks_seen of
        (evs, Inl out) \<Rightarrow> (evs, out)
      | (evs, Inr acc) \<Rightarrow> drain e evs acc)"
  by (simp add: prePushCommand_def)

lemma no_locks_seen_fields: "lockConflicts no_locks_seen = []" "myLocks no_locks_seen = []"
  by (simp_all add: no_locks_seen_def)

lemma read_loop_all_dispatched:
  assumes "\<forall>raw\<in>set stdin. evaluated raw \<longrightarrow>
             conflicts_of e ls (pointers e (TrimSpace raw)) = []
             \<and> uploadLeftOrAll e (fst (decodeRefs (TrimSpace raw))) = None"
    and "lockConflicts acc = []"
  shows "\<exists>evs acc'. read_loop e ls stdin acc = (evs, Inr acc')
           \<and> uploads_of evs =
               map (\<lambda>raw. fst (decodeRefs (TrimSpace raw))) (filter evaluated stdin)"
  using assms
proof (induction stdin arbitrary: acc)
  case Nil
  show ?case by simp
next
  case (Cons raw rest)
  have rest: "\<forall>raw\<in>set rest. evaluated raw \<longrightarrow>
             conflicts_of e ls (pointers e (TrimSpace raw)) = []
             \<and> uploadLeftOrAll e (fst (decodeRefs (TrimSpace raw))) = None"
    using Cons.prems(1) by simp
  show ?case
  proof (cases "evaluated raw")
    case True
    define acc1 where "acc1 = check_locks ls (fst (CurrentCommitter e)) (snd (CurrentCommitter e))
                  (pointers e (TrimSpace raw)) acc"
    have free: "lockConflicts acc1 = []"
      using Cons.prems True by (simp add: acc1_def conflicts_of_append)
    have ok: "uploadLeftOrAll e (fst (decodeRefs (TrimSpace raw))) = None"
      using Cons.prems(1) True by simp
    have body: "loop_body e ls raw acc =
        ([Traced ''pre-push: %s'' [TrimSpace raw], Uploaded (fst (decodeRefs (TrimSpace raw)))],
         Inr acc1)"
      using loop_body_upload [OF True acc1_def free] by (simp add: ok)
    from Cons.IH [OF rest free] obtain evs acc' where
      "read_loop e ls rest acc1 = (evs, Inr acc')"
      "uploads_of evs = map (\<lambda>raw. fst (decodeRefs (TrimSpace raw))) (filter evaluated rest)"
      by blast
    then show ?thesis using True by (simp add: body)
  next
    case False
    from loop_body_not_evaluated [OF False, of e ls acc] obtain evs0 where
      body: "loop_body e ls raw acc = (evs0, Inr acc)" and none: "uploads_of evs0 = []"
      by blast
    from Cons.IH [OF rest Cons.prems(2)] obtain evs acc' where
      "read_loop e ls rest acc = (evs, Inr acc')"
      "uploads_of evs = map (\<lambda>raw. fst (decodeRefs (TrimSpace raw))) (filter evaluated rest)"
      by blast
    then show ?thesis using False by (simp add: body none uploads_of_append)
  qed
qed

subsection \<open>Evaluation of the concrete lines and runs\<close>

lemma TrimSpace_line_topic: "TrimSpace line_topic = line_topic"
  by (simp add: line_topic_def TrimSpace_def TrimLeft_def TrimRight_def white_space_def)

lemma TrimSpace_line_delete: "TrimSpace line_delete = line_delete"
  by (simp add: line_delete_def TrimSpace_def TrimLeft_def TrimRight_def white_space_def)

lemma decodeRefs_line_main: "decodeRefs line_main = (''abc123'', ''^def456'')"
  by (simp add: decodeRefs_def TrimSpace_line_main) (simp add: line_main_def)

lemma decodeRefs_line_topic: "decodeRefs line_topic = (''111aaa'', ''^222bbb'')"
  by (simp add: decodeRefs_def TrimSpace_line_topic) (simp add: line_topic_def)

lemma decodeRefs_line_delete:
  "decodeRefs line_delete = (prePushDeleteBranch, ''^def456'')"
  by (simp add: decodeRefs_def TrimSpace_line_delete prePushDeleteBranch_value)
     (simp add: line_delete_def)

lemma evaluated_line_main: "evaluated line_main"
  by (simp add: evaluated_def TrimSpace_line_main decodeRefs_line_main prePushDeleteBranch_value)
     (simp add: line_main_def)

lemma evaluated_line_topic: "evaluated line_topic"
  by (simp add: evaluated_def TrimSpace_line_topic decodeRefs_line_topic prePushDeleteBranch_value)
     (simp add: line_topic_def)

lemma line_main_neq_topic: "line_main \<noteq> line_topic" "line_topic \<noteq> line_main"
  by (simp_all add: line_main_def line_topic_def)

lemma startup_quiet_env: "startup quiet_env = Inr []"
  by (simp add: startup_def quiet_env_def)

lemma startup_alice_env: "startup alice_env = Inr [alice_lock]"
  by (simp add: startup_def alice_env_def quiet_env_def)

lemma startup_named_env: "startup named_env = Inr [named_lock]"
  by (simp add: startup_def named_env_def quiet_env_def)

lemma startup_bob_env: "startup bob_env = Inr [bob_lock]"
  by (simp add: startup_def bob_env_def quiet_env_def)

lemma startup_failing_scan_env: "startup failing_scan_env = Inr []"
  by (simp add: startup_def failing_scan_env_def quiet_env_def)

lemma loop_body_line_main:
  "loop_body e ls line_main acc =
     (let acc' = check_locks ls (fst (CurrentCommitter e)) (snd (CurrentCommitter e))
                   (pointers e line_main) acc
      in if length (lockConflicts acc') > 0 then
           ([Traced ''pre-push: %s'' [line_main],
             Errored ''Some files are locked in %s...%s'' [''abc123'', CurrentRemote e]]
            @ map (\<lambda>file. Errored ''* %s'' [file]) (lockConflicts acc'), Inl (OsExit 1))
         else
           (case uploadLeftOrAll e ''abc123'' of
              Some err \<Rightarrow>
                ([Traced ''pre-push: %s'' [line_main], Uploaded ''abc123'',
                  Printed ''Error scanning for Git LFS files in %q'' [''abc123'']],
                 Inl (ExitWithError err))
            | None \<Rightarrow> ([Traced ''pre-push: %s'' [line_main], Uploaded ''abc123''], Inr acc')))"
  using evaluated_line_main
  by (simp add: loop_body_def evaluated_def TrimSpace_line_main decodeRefs_line_main Let_def)

lemma named_env_fields:
  "CurrentCommitter named_env = (''bob'', ''bob@example.com'')"
  "CurrentRemote named_env = ''origin''"
  "pointers named_env line = (if line = line_topic then [\<lparr>p_Name = ''big.psd''\<rparr>] else [])"
  "uploadLeftOrAll named_env left = None"
  "Await named_env lefts = None"
  by (simp_all add: named_env_def quiet_env_def)

lemma lockSet_named_lock:
  "lockSet [named_lock] = [''big.psd'' \<mapsto> named_lock]"
  by (simp add: lockSet_def named_lock_def)

lemma read_loop_named_env_main:
  "read_loop named_env (lockSet [named_lock]) [line_main] no_locks_seen =
     ([Traced ''pre-push: %s'' [line_main], Uploaded ''abc123''], Inr no_locks_seen)"
  by (simp add: loop_body_line_main named_env_fields line_main_neq_topic no_locks_seen_fields)

lemma check_locks_named_env_topic:
  "check_locks (lockSet [named_lock]) (fst (CurrentCommitter named_env))
     (snd (CurrentCommitter named_env)) (pointers named_env (TrimSpace line_topic)) no_locks_seen =
   \<lparr>lockConflicts = [''big.psd''], myLocks = []\<rparr>"
  by (simp add: named_env_fields TrimSpace_line_topic lockSet_named_lock)
     (simp add: named_lock_def no_locks_seen_def)

lemma quiet_env_fields:
  "CurrentCommitter quiet_env = (''bob'', ''bob@example.com'')"
  "CurrentRemote quiet_env = ''origin''"
  "pointers quiet_env line = []"
  "uploadLeftOrAll quiet_env left = None"
  "Await quiet_env lefts = None"
  by (simp_all add: quiet_env_def)

lemma alice_env_fields:
  "CurrentCommitter alice_env = (''bob'', ''bob@example.com'')"
  "CurrentRemote alice_env = ''origin''"
  "pointers alice_env line = (if line = line_main then [\<lparr>p_Name = ''big.psd''\<rparr>] else [])"
  "uploadLeftOrAll alice_env left = None"
  "Await alice_env lefts = None"
  by (simp_all add: alice_env_def quiet_env_def)

lemma bob_env_fields:
  "CurrentCommitter bob_env = (''bob'', ''bob@example.com'')"
  "CurrentRemote bob_env = ''origin''"
  "pointers bob_env line = [\<lparr>p_Name = ''bob''\<rparr>]"
  "uploadLeftOrAll bob_env left = None"
  "Await bob_env lefts = Some ''transfer failed''"
  by (simp_all add: bob_env_def quiet_env_def)

lemma failing_scan_env_fields:
  "CurrentCommitter failing_scan_env = (''bob'', ''bob@example.com'')"
  "CurrentRemote failing_scan_env = ''origin''"
  "pointers failing_scan_env line = []"
  "uploadLeftOrAll failing_scan_env left = (if left = ''abc123'' then Some ''scan failed'' else None)"
  "Await failing_scan_env lefts = None"
  by (simp_all add: failing_scan_env_def quiet_env_def)

lemma lockSet_Nil: "lockSet [] = Map.empty"
  by (simp add: lockSet_def)

lemma lockSet_alice_lock: "lockSet [alice_lock] = [''alice'' \<mapsto> alice_lock]"
  by (simp add: lockSet_def alice_lock_def)

lemma lockSet_bob_lock: "lockSet [bob_lock] = [''bob'' \<mapsto> bob_lock]"
  by (simp add: lockSet_def bob_lock_def)

lemma TrimSpace_blank: "TrimSpace ''  '' = []"
  by (simp add: TrimSpace_def TrimLeft_def TrimRight_def white_space_def)

lemma not_evaluated_blank: "\<not> evaluated ''  ''"
  by (simp add: evaluated_def TrimSpace_blank)

lemma not_evaluated_line_delete: "\<not> evaluated line_delete"
  by (simp add: evaluated_def TrimSpace_line_delete decodeRefs_line_delete)

lemma TrimSpace_line_short: "TrimSpace line_short = line_short"
  by (simp add: line_short_def TrimSpace_def TrimLeft_def TrimRight_def white_space_def)

lemma conflicts_of_Nil: "conflicts_of e ls [] = []"
  by (simp add: conflicts_of_def no_locks_seen_def)

subsection \<open>The claims\<close>

text \<open>
  Claim C1. Whenever the run reaches a line (the lines \<open>pre\<close> before it were read without
  ending the process), the line is evaluated and the conflict set is not empty after
  its evaluation, the hook prints the header with the local revision and the remote
  name, then every conflicting path, and ends the process with \<open>os.Exit(1)\<close>: whatever
  lines \<open>post\<close> follow, nothing is read or enqueued any more, and \<open>ctx.Await\<close> is not
  called.
\<close>

theorem conflict_aborts:
  assumes "startup e = Inr locks"
    and "read_loop e (lockSet locks) pre no_locks_seen = (evs, Inr acc)"
    and "evaluated raw"
    and "acc' = check_locks (lockSet locks) (fst (CurrentCommitter e)) (snd (CurrentCommitter e))
                  (pointers e (TrimSpace raw)) acc"
    and "lockConflicts acc' \<noteq> []"
  shows "prePushCommand e (pre @ raw # post) =
           (evs @ [Traced ''pre-push: %s'' [TrimSpace raw],
                   Errored ''Some files are locked in %s...%s''
                     [fst (decodeRefs (TrimSpace raw)), CurrentRemote e]]
                @ map (\<lambda>file. Errored ''* %s'' [file]) (lockConflicts acc'),
            OsExit 1)
         \<and> \<not> exit_zero (snd (prePushCommand e (pre @ raw # post)))
         \<and> uploads_of (fst (prePushCommand e (pre @ raw # post))) = uploads_of evs
         \<and> Awaited \<notin> set (fst (prePushCommand e (pre @ raw # post)))"
proof -
  have run: "prePushCommand e (pre @ raw # post) =
           (evs @ [Traced ''pre-push: %s'' [TrimSpace raw],
                   Errored ''Some files are locked in %s...%s''
                     [fst (decodeRefs (TrimSpace raw)), CurrentRemote e]]
                @ map (\<lambda>file. Errored ''* %s'' [file]) (lockConflicts acc'),
            OsExit 1)"
    by (simp add: prePushCommand_run [OF assms(1)] read_loop_append assms(2)
        loop_body_conflict [OF assms(3,4,5)])
  have "Awaited \<notin> set evs"
    using read_loop_no_Awaited [OF assms(2)] .
  then show ?thesis
    by (auto simp: run uploads_of_append uploads_of_Errored)
qed

theorem conflict_aborts_witness:
  "prePushCommand named_env ([line_main] @ line_topic # [line_main]) =
     ([Traced ''pre-push: %s'' [line_main], Uploaded ''abc123'',
       Traced ''pre-push: %s'' [line_topic],
       Errored ''Some files are locked in %s...%s'' [''111aaa'', ''origin''],
       Errored ''* %s'' [''big.psd'']],
      OsExit 1)"
proof -
  have conflict: "lockConflicts \<lparr>lockConflicts = [''big.psd''], myLocks = []\<rparr> \<noteq> []"
    by simp
  from conflict_aborts [OF startup_named_env read_loop_named_env_main evaluated_line_topic
      check_locks_named_env_topic [symmetric] conflict, of "[line_main]"]
  show ?thesis
    by (simp add: TrimSpace_line_topic decodeRefs_line_topic named_env_fields)
qed

text \<open>
  Claim C2 (the lock index maps an object's path to its lock, and a touched object found
  in it goes to the owned set when the lock's owner is the committer, to the conflict set
  otherwise). The code keys the index by \<open>l.Name\<close>, the field that it compares with the
  committer's name, and looks the touched object's name up in it. So with \<open>big.psd\<close>
  locked by alice and touched by bob's push, the index has no entry for \<open>big.psd\<close> (its
  one entry is under \<open>alice\<close>), no conflict is found, and the push is enqueued and
  drained.
\<close>

theorem lock_index_keyed_by_owner_name:
  "lockSet [alice_lock] ''big.psd'' = None
   \<and> lockSet [alice_lock] ''alice'' = Some alice_lock
   \<and> prePushCommand alice_env [line_main] =
       ([Traced ''pre-push: %s'' [line_main], Uploaded ''abc123'',
         Awaited, Closed_lc, Closed_gitscanner], Returned)"
  by (simp add: prePushCommand_run [OF startup_alice_env] loop_body_line_main
      alice_env_fields lockSet_alice_lock no_locks_seen_fields drain_def owned_report_def)

text \<open>
  Claim C3 as stated (with no touched object locked by another user, each line that is
  not a deletion gives exactly one enqueue call) fails when an enqueue call returns an
  error: the process ends there, and the lines after it are not enqueued. Here no lock
  is registered at all, both lines are evaluated, and only the first is enqueued.
\<close>

theorem scan_failure_counterexample:
  "startup failing_scan_env = Inr []
   \<and> evaluated line_main \<and> evaluated line_topic
   \<and> uploads_of (fst (prePushCommand failing_scan_env [line_main, line_topic])) = [''abc123'']"
  by (simp add: prePushCommand_run [OF startup_failing_scan_env] startup_failing_scan_env
      evaluated_line_main evaluated_line_topic loop_body_line_main
      failing_scan_env_fields lockSet_Nil check_locks_empty no_locks_seen_fields)

text \<open>
  Claim C3, amended. When the conflict set stays empty at every evaluated line and every
  \<open>uploadLeftOrAll\<close> call returns without error, the enqueue calls are exactly one for
  each evaluated line (not blank, not a deletion), in the order of the input;
  \<open>ctx.Await\<close> is called once, after all of them; and the exit status is 0 exactly when
  \<open>ctx.Await\<close> reports success for the enqueued revisions.
\<close>

theorem every_line_enqueued_then_drained:
  assumes "startup e = Inr locks"
    and "\<forall>raw\<in>set stdin. evaluated raw \<longrightarrow>
           conflicts_of e (lockSet locks) (pointers e (TrimSpace raw)) = []
           \<and> uploadLeftOrAll e (fst (decodeRefs (TrimSpace raw))) = None"
  shows "uploads_of (fst (prePushCommand e stdin)) =
           map (\<lambda>raw. fst (decodeRefs (TrimSpace raw))) (filter evaluated stdin)
         \<and> (exit_zero (snd (prePushCommand e stdin)) \<longleftrightarrow>
              Await e (uploads_of (fst (prePushCommand e stdin))) = None)
         \<and> (\<exists>before after. fst (prePushCommand e stdin) = before @ Awaited # after
              \<and> Awaited \<notin> set before \<and> Awaited \<notin> set after
              \<and> uploads_of before = uploads_of (fst (prePushCommand e stdin)))"
proof -
  from read_loop_all_dispatched [OF assms(2) no_locks_seen_fields(1)] obtain evs acc where
    loop: "read_loop e (lockSet locks) stdin no_locks_seen = (evs, Inr acc)" and
    ups: "uploads_of evs = map (\<lambda>raw. fst (decodeRefs (TrimSpace raw))) (filter evaluated stdin)"
    by blast
  have run: "prePushCommand e stdin = drain e evs acc"
    by (simp add: prePushCommand_run [OF assms(1)] loop)
  have quiet: "Awaited \<notin> set (evs @ owned_report acc)"
    using read_loop_no_Awaited [OF loop] by (auto simp: owned_report_def)
  have same: "uploads_of (evs @ owned_report acc) = uploads_of evs"
    by (simp add: uploads_of_append uploads_of_owned_report)
  show ?thesis
  proof (cases "Await e (uploads_of evs)")
    case None
    have trace: "fst (prePushCommand e stdin) =
        (evs @ owned_report acc) @ Awaited # [Closed_lc, Closed_gitscanner]"
      and out: "snd (prePushCommand e stdin) = Returned"
      by (simp_all add: run drain_def None)
    have all: "uploads_of (fst (prePushCommand e stdin)) = uploads_of evs"
      by (simp add: trace uploads_of_append uploads_of_owned_report)
    have closes: "Awaited \<notin> set [Closed_lc, Closed_gitscanner]"
      by simp
    have "\<exists>before after. fst (prePushCommand e stdin) = before @ Awaited # after
              \<and> Awaited \<notin> set before \<and> Awaited \<notin> set after
              \<and> uploads_of before = uploads_of (fst (prePushCommand e stdin))"
      using trace quiet same all closes by metis
    moreover have "exit_zero (snd (prePushCommand e stdin)) \<longleftrightarrow>
              Await e (uploads_of (fst (prePushCommand e stdin))) = None"
      by (simp add: all out None)
    moreover have "uploads_of (fst (prePushCommand e stdin)) =
           map (\<lambda>raw. fst (decodeRefs (TrimSpace raw))) (filter evaluated stdin)"
      by (simp add: all ups)
    ultimately show ?thesis
      by blast
  next
    case (Some err)
    have trace: "fst (prePushCommand e stdin) = (evs @ owned_report acc) @ Awaited # []"
      and out: "snd (prePushCommand e stdin) = AwaitFailed err"
      by (simp_all add: run drain_def Some)
    have all: "uploads_of (fst (prePushCommand e stdin)) = uploads_of evs"
      by (simp add: trace uploads_of_append uploads_of_owned_report)
    have closes: "Awaited \<notin> set []"
      by simp
    have "\<exists>before after. fst (prePushCommand e stdin) = before @ Awaited # after
              \<and> Awaited \<notin> set before \<and> Awaited \<notin> set after
              \<and> uploads_of before = uploads_of (fst (prePushCommand e stdin))"
      using trace quiet same all closes by metis
    moreover have "exit_zero (snd (prePushCommand e stdin)) \<longleftrightarrow>
              Await e (uploads_of (fst (prePushCommand e stdin))) = None"
      by (simp add: all out Some)
    moreover have "uploads_of (fst (prePushCommand e stdin)) =
           map (\<lambda>raw. fst (decodeRefs (TrimSpace raw))) (filter evaluated stdin)"
      by (simp add: all ups)
    ultimately show ?thesis
      by blast
  qed
qed

theorem every_line_enqueued_then_drained_witness:
  "uploads_of (fst (prePushCommand quiet_env [line_main, ''  '', line_delete, line_topic])) =
     [''abc123'', ''111aaa'']
   \<and> exit_zero (snd (prePushCommand quiet_env [line_main, ''  '', line_delete, line_topic]))"
proof -
  have clear: "\<forall>raw\<in>set [line_main, ''  '', line_delete, line_topic]. evaluated raw \<longrightarrow>
           conflicts_of quiet_env (lockSet []) (pointers quiet_env (TrimSpace raw)) = []
           \<and> uploadLeftOrAll quiet_env (fst (decodeRefs (TrimSpace raw))) = None"
    by (simp add: quiet_env_fields conflicts_of_Nil)
  from every_line_enqueued_then_drained [OF startup_quiet_env clear]
  show ?thesis
    by (simp add: evaluated_line_main evaluated_line_topic not_evaluated_blank
        not_evaluated_line_delete TrimSpace_line_main TrimSpace_line_topic
        decodeRefs_line_main decodeRefs_line_topic quiet_env_fields)
qed

text \<open>
  Claim C4 as stated (the enqueue for \<open>refs/heads/main abc123 refs/heads/main def456\<close>
  carries the remote exclusion \<open>^def456\<close>) fails: \<open>decodeRefs\<close> returns \<open>^def456\<close>, but the
  hook discards it (\<open>left, _ := decodeRefs(line)\<close>) and the one call is
  \<open>uploadLeftOrAll(gitscanner, ctx, "abc123")\<close>.
\<close>

theorem main_push_counterexample:
  "uploads_of (fst (prePushCommand quiet_env [line_main])) = [''abc123'']
   \<and> snd (decodeRefs line_main) = ''^def456''
   \<and> ''^def456'' \<notin> set (uploads_of (fst (prePushCommand quiet_env [line_main])))"
  by (simp add: prePushCommand_run [OF startup_quiet_env] loop_body_line_main
      quiet_env_fields lockSet_Nil check_locks_empty no_locks_seen_fields drain_def
      owned_report_def decodeRefs_line_main)

text \<open>
  Claim C4, amended. For that line, with no lock registered and the scan and the drain
  succeeding, the hook makes exactly one enqueue call, whose only revision argument is
  the local revision \<open>abc123\<close>, then drains and exits 0.
\<close>

theorem main_push_enqueues_local_only:
  assumes "startup e = Inr []"
    and "uploadLeftOrAll e ''abc123'' = None"
    and "Await e [''abc123''] = None"
  shows "prePushCommand e [line_main] =
           ([Traced ''pre-push: %s'' [line_main], Uploaded ''abc123'',
             Awaited, Closed_lc, Closed_gitscanner], Returned)
         \<and> uploads_of (fst (prePushCommand e [line_main])) = [''abc123'']
         \<and> exit_zero (snd (prePushCommand e [line_main]))"
  using assms(2,3)
  by (simp add: prePushCommand_run [OF assms(1)] loop_body_line_main
      lockSet_Nil check_locks_empty no_locks_seen_fields drain_def owned_report_def)

theorem main_push_enqueues_local_only_witness:
  "prePushCommand quiet_env [line_main] =
     ([Traced ''pre-push: %s'' [line_main], Uploaded ''abc123'',
       Awaited, Closed_lc, Closed_gitscanner], Returned)"
  using main_push_enqueues_local_only [OF startup_quiet_env]
  by (simp add: quiet_env_fields)

text \<open>
  Claim C5. For a trimmed, non-empty line made of the tokens \<open>ts\<close> (none of them
  containing a space) with one space between each two, \<open>decodeRefs\<close> returns token 1 as
  the local revision (the empty string when there is no token 1) and, when there are at
  least 4 tokens, token 3 after the marker \<open>^\<close> as the remote revision, the empty string
  otherwise. The result is a function of the line alone: \<open>decodeRefs\<close> reads no state.
\<close>

theorem decodeRefs_tokens:
  assumes "ts \<noteq> []" and "\<forall>t\<in>set ts. CHR '' '' \<notin> set t"
    and "line = Join ts (CHR '' '')" and "line \<noteq> []" and "TrimSpace line = line"
  shows "decodeRefs line =
           (if 1 < length ts then ts ! 1 else [],
            if 3 < length ts then ''^'' @ ts ! 3 else [])"
  using assms by (simp add: decodeRefs_def Split_Join)

theorem decodeRefs_tokens_witness:
  "line_main = Join [''refs/heads/main'', ''abc123'', ''refs/heads/main'', ''def456''] (CHR '' '')
   \<and> TrimSpace line_main = line_main
   \<and> decodeRefs line_main = (''abc123'', ''^def456'')"
proof -
  have tokens: "line_main =
      Join [''refs/heads/main'', ''abc123'', ''refs/heads/main'', ''def456''] (CHR '' '')"
    by (simp add: line_main_def)
  have filled: "line_main \<noteq> []"
    by (simp add: line_main_def)
  from decodeRefs_tokens [OF _ _ tokens filled TrimSpace_line_main] tokens TrimSpace_line_main
  show ?thesis by simp
qed

text \<open>
  Claim C6. For a line whose decoded local revision is the deletion sentinel (forty
  zeros), whatever the lock index and the two slices are, the body of the loop only
  traces the line: no enqueue, no lock check (the slices are unchanged), and the loop
  goes on with the next line from the same state.
\<close>

theorem deletion_is_skipped:
  assumes "fst (decodeRefs raw) = prePushDeleteBranch"
  shows "loop_body e ls raw acc = ([Traced ''pre-push: %s'' [TrimSpace raw]], Inr acc)
         \<and> read_loop e ls (raw # rest) acc =
             (Traced ''pre-push: %s'' [TrimSpace raw] # fst (read_loop e ls rest acc),
              snd (read_loop e ls rest acc))"
  by (simp add: loop_body_deleted [OF assms] split: prod.splits)

theorem deletion_is_skipped_witness:
  "fst (decodeRefs line_delete) = prePushDeleteBranch
   \<and> loop_body bob_env (lockSet [bob_lock]) line_delete no_locks_seen =
       ([Traced ''pre-push: %s'' [line_delete]], Inr no_locks_seen)
   \<and> read_loop bob_env (lockSet [bob_lock]) [line_delete, line_main] no_locks_seen =
       ([Traced ''pre-push: %s'' [line_delete], Traced ''pre-push: %s'' [line_main],
         Uploaded ''abc123''],
        Inr \<lparr>lockConflicts = [], myLocks = [''mine.psd'']\<rparr>)"
proof -
  have deleted: "fst (decodeRefs line_delete) = prePushDeleteBranch"
    by (simp add: decodeRefs_line_delete)
  from deletion_is_skipped [OF deleted, of bob_env "lockSet [bob_lock]" no_locks_seen "[line_main]"]
  show ?thesis
    by (simp add: deleted TrimSpace_line_delete loop_body_line_main bob_env_fields
        lockSet_bob_lock no_locks_seen_fields)
       (simp add: bob_lock_def no_locks_seen_def)
qed

text \<open>
  Claim C7 as stated (a non-blank line of fewer than 2 tokens is "nothing to do": no
  enqueue) fails: the local revision is empty, but nothing in the loop tests for that,
  and the hook enqueues the empty revision.
\<close>

theorem short_line_counterexample:
  "TrimSpace line_short \<noteq> []
   \<and> length (Split (TrimSpace line_short) (CHR '' '')) < 2
   \<and> fst (decodeRefs line_short) = []
   \<and> prePushCommand quiet_env [line_short] =
       ([Traced ''pre-push: %s'' [line_short], Uploaded [],
         Awaited, Closed_lc, Closed_gitscanner], Returned)"
  by (simp add: prePushCommand_run [OF startup_quiet_env] loop_body_def decodeRefs_def
      TrimSpace_line_short TrimSpace_idem Let_def quiet_env_fields lockSet_Nil check_locks_empty
      no_locks_seen_fields drain_def owned_report_def prePushDeleteBranch_value)
     (simp add: line_short_def)

text \<open>
  Claim C7, amended. For every non-blank line of fewer than 2 tokens, decoding yields an
  empty local revision, and the loop handles the line as any other ref update: it checks
  the locks of the line's objects, aborts on a conflict, and otherwise calls
  \<open>uploadLeftOrAll\<close> once with the empty revision, ending the process with an error only
  when that call fails.
\<close>

theorem short_line_is_enqueued:
  assumes "TrimSpace raw \<noteq> []" and "length (Split (TrimSpace raw) (CHR '' '')) < 2"
  shows "fst (decodeRefs raw) = []
         \<and> loop_body e ls raw acc =
             (let acc' = check_locks ls (fst (CurrentCommitter e)) (snd (CurrentCommitter e))
                           (pointers e (TrimSpace raw)) acc
              in if lockConflicts acc' \<noteq> [] then
                   ([Traced ''pre-push: %s'' [TrimSpace raw],
                     Errored ''Some files are locked in %s...%s'' [[], CurrentRemote e]]
                    @ map (\<lambda>file. Errored ''* %s'' [file]) (lockConflicts acc'),
                    Inl (OsExit 1))
                 else
                   (case uploadLeftOrAll e [] of
                      Some err \<Rightarrow>
                        ([Traced ''pre-push: %s'' [TrimSpace raw], Uploaded [],
                          Printed ''Error scanning for Git LFS files in %q'' [[]]],
                         Inl (ExitWithError err))
                    | None \<Rightarrow> ([Traced ''pre-push: %s'' [TrimSpace raw], Uploaded []], Inr acc')))"
proof -
  have left: "fst (decodeRefs raw) = []"
    using assms(2) by (simp add: decodeRefs_def)
  then have "fst (decodeRefs (TrimSpace raw)) = []"
    by (simp add: decodeRefs_TrimSpace)
  then show ?thesis
    using assms(1) left
    by (simp add: loop_body_def Let_def prePushDeleteBranch_value)
qed

theorem short_line_is_enqueued_witness:
  "fst (decodeRefs line_short) = []
   \<and> loop_body quiet_env Map.empty line_short no_locks_seen =
       ([Traced ''pre-push: %s'' [line_short], Uploaded []], Inr no_locks_seen)"
proof -
  have filled: "TrimSpace line_short \<noteq> []"
    by (simp add: TrimSpace_line_short) (simp add: line_short_def)
  have short: "length (Split (TrimSpace line_short) (CHR '' '')) < 2"
    by (simp add: TrimSpace_line_short) (simp add: line_short_def)
  from short_line_is_enqueued [OF filled short, of quiet_env Map.empty no_locks_seen]
  show ?thesis
    by (simp add: TrimSpace_line_short quiet_env_fields check_locks_empty no_locks_seen_fields)
qed

text \<open>
  Claim C8. When the first line is evaluated without conflict and enqueued, and the
  second line is evaluated with a conflict, the run ends with \<open>os.Exit(1)\<close> whatever
  follows, and the report lists exactly the conflicting paths among the objects of the
  second line.
\<close>

theorem second_line_conflict_report:
  assumes "startup e = Inr locks"
    and "evaluated raw1"
    and "conflicts_of e (lockSet locks) (pointers e (TrimSpace raw1)) = []"
    and "uploadLeftOrAll e (fst (decodeRefs (TrimSpace raw1))) = None"
    and "evaluated raw2"
    and "conflicts_of e (lockSet locks) (pointers e (TrimSpace raw2)) \<noteq> []"
  shows "prePushCommand e (raw1 # raw2 # rest) =
           ([Traced ''pre-push: %s'' [TrimSpace raw1],
             Uploaded (fst (decodeRefs (TrimSpace raw1))),
             Traced ''pre-push: %s'' [TrimSpace raw2],
             Errored ''Some files are locked in %s...%s''
               [fst (decodeRefs (TrimSpace raw2)), CurrentRemote e]]
            @ map (\<lambda>file. Errored ''* %s'' [file])
                (conflicts_of e (lockSet locks) (pointers e (TrimSpace raw2))),
            OsExit 1)
         \<and> \<not> exit_zero (snd (prePushCommand e (raw1 # raw2 # rest)))"
proof -
  define acc1 where "acc1 = check_locks (lockSet locks) (fst (CurrentCommitter e))
      (snd (CurrentCommitter e)) (pointers e (TrimSpace raw1)) no_locks_seen"
  define acc2 where "acc2 = check_locks (lockSet locks) (fst (CurrentCommitter e))
      (snd (CurrentCommitter e)) (pointers e (TrimSpace raw2)) acc1"
  have free: "lockConflicts acc1 = []"
    using assms(3) by (simp add: acc1_def conflicts_of_append no_locks_seen_fields)
  have found: "lockConflicts acc2 =
      conflicts_of e (lockSet locks) (pointers e (TrimSpace raw2))"
    by (simp add: acc2_def conflicts_of_append free)
  have first: "loop_body e (lockSet locks) raw1 no_locks_seen =
      ([Traced ''pre-push: %s'' [TrimSpace raw1],
        Uploaded (fst (decodeRefs (TrimSpace raw1)))], Inr acc1)"
    using loop_body_upload [OF assms(2) acc1_def free] by (simp add: assms(4))
  have second: "loop_body e (lockSet locks) raw2 acc1 =
      ([Traced ''pre-push: %s'' [TrimSpace raw2],
        Errored ''Some files are locked in %s...%s''
          [fst (decodeRefs (TrimSpace raw2)), CurrentRemote e]]
       @ map (\<lambda>file. Errored ''* %s'' [file])
           (conflicts_of e (lockSet locks) (pointers e (TrimSpace raw2))),
       Inl (OsExit 1))"
    using loop_body_conflict [OF assms(5) acc2_def] assms(6) by (simp add: found)
  show ?thesis
    by (simp add: prePushCommand_run [OF assms(1)] first second)
qed

theorem second_line_conflict_report_witness:
  "prePushCommand named_env [line_main, line_topic, line_short] =
     ([Traced ''pre-push: %s'' [line_main], Uploaded ''abc123'',
       Traced ''pre-push: %s'' [line_topic],
       Errored ''Some files are locked in %s...%s'' [''111aaa'', ''origin''],
       Errored ''* %s'' [''big.psd'']],
      OsExit 1)"
proof -
  have none: "conflicts_of named_env (lockSet [named_lock])
      (pointers named_env (TrimSpace line_main)) = []"
    by (simp add: named_env_fields TrimSpace_line_main line_main_neq_topic conflicts_of_Nil)
  have ok: "uploadLeftOrAll named_env (fst (decodeRefs (TrimSpace line_main))) = None"
    by (simp add: named_env_fields)
  have found: "conflicts_of named_env (lockSet [named_lock])
      (pointers named_env (TrimSpace line_topic)) = [''big.psd'']"
    by (simp add: conflicts_of_def check_locks_named_env_topic)
  have some: "conflicts_of named_env (lockSet [named_lock])
      (pointers named_env (TrimSpace line_topic)) \<noteq> []"
    by (simp add: found)
  have listed: "conflicts_of named_env (lockSet [named_lock]) [\<lparr>p_Name = ''big.psd''\<rparr>] =
      [''big.psd'']"
    using found by (simp add: named_env_fields TrimSpace_line_topic)
  from second_line_conflict_report [OF startup_named_env evaluated_line_main none ok
      evaluated_line_topic some, of "[line_short]"]
  show ?thesis
    by (simp add: listed TrimSpace_line_main TrimSpace_line_topic decodeRefs_line_main
        decodeRefs_line_topic named_env_fields)
qed

text \<open>
  Claim C9. For every input string \<open>s\<close>, \<open>decodeRefs\<close> yields the same pair for \<open>s\<close> and
  for \<open>s\<close> between any white space: with \<open>ls\<close> and \<open>rs\<close> any sequences of white-space
  runes, decoding \<open>ls s rs\<close> gives what decoding \<open>s\<close> gives. In particular it yields the
  same pair for \<open>s\<close> and for \<open>TrimSpace s\<close>, which is \<open>s\<close> without its leading and trailing
  white space: \<open>s\<close> is \<open>TrimSpace s\<close> between two sequences of white-space runes, and
  \<open>TrimSpace s\<close> neither starts nor ends with a white-space rune.
\<close>

theorem decodeRefs_trims:
  assumes "set ls \<subseteq> set white_space" and "set rs \<subseteq> set white_space"
  shows "decodeRefs (concat ls @ s @ concat rs) = decodeRefs s
         \<and> decodeRefs (TrimSpace s) = decodeRefs s
         \<and> (\<exists>ls' rs'. set ls' \<subseteq> set white_space \<and> set rs' \<subseteq> set white_space
               \<and> s = concat ls' @ TrimSpace s @ concat rs')
         \<and> (\<forall>e\<in>set white_space. \<not> prefix e (TrimSpace s) \<and> \<not> suffix e (TrimSpace s))"
proof -
  have "decodeRefs (concat ls @ s @ concat rs) = decodeRefs s"
    by (simp add: decodeRefs_def TrimSpace_padding [OF assms])
  moreover have "decodeRefs (TrimSpace s) = decodeRefs s"
    by (simp add: decodeRefs_def TrimSpace_idem)
  ultimately show ?thesis
    using TrimSpace_decompose [of s] TrimSpace_no_space [of _ s] by blast
qed

theorem decodeRefs_trims_witness:
  "decodeRefs ([CHR 0x20, CHR 0x09] @ line_main @ [CHR 0xC2, CHR 0xA0, CHR 0x0A]) =
     (''abc123'', ''^def456'')
   \<and> decodeRefs line_main = (''abc123'', ''^def456'')"
proof -
  have lead: "set [[CHR 0x20], [CHR 0x09]] \<subseteq> set white_space"
    by (simp add: white_space_def)
  have trail: "set [[CHR 0xC2, CHR 0xA0], [CHR 0x0A]] \<subseteq> set white_space"
    by (simp add: white_space_def)
  from decodeRefs_trims [OF lead trail, of line_main]
  have "decodeRefs (concat [[CHR 0x20], [CHR 0x09]] @ line_main
          @ concat [[CHR 0xC2, CHR 0xA0], [CHR 0x0A]]) = decodeRefs line_main"
    by (rule conjunct1)
  then show ?thesis
    by (simp add: decodeRefs_line_main)
qed

text \<open>
  Claim C10. In a run whose loop reads all lines without ending the process, the report of
  the committer's own locks (the header and one line for each path, when there is any)
  comes after the events of the loop and before the one call of \<open>ctx.Await\<close>, whether
  that call then succeeds or fails.
\<close>

theorem owned_report_precedes_Await:
  assumes "startup e = Inr locks"
    and "read_loop e (lockSet locks) stdin no_locks_seen = (evs, Inr acc)"
  shows "fst (prePushCommand e stdin) =
           evs
           @ (if myLocks acc \<noteq> []
              then Printed ''Pushing your locked files:'' []
                   # map (\<lambda>file. Printed ''* %s'' [file]) (myLocks acc)
              else [])
           @ Awaited
             # (case Await e (uploads_of evs) of
                  None \<Rightarrow> [Closed_lc, Closed_gitscanner]
                | Some err \<Rightarrow> [])
         \<and> Awaited \<notin> set evs"
  using read_loop_no_Awaited [OF assms(2)]
  by (simp add: prePushCommand_run [OF assms(1)] assms(2) drain_def owned_report_def
      split: option.splits)

theorem owned_report_precedes_Await_witness:
  "prePushCommand bob_env [line_main] =
     ([Traced ''pre-push: %s'' [line_main], Uploaded ''abc123'',
       Printed ''Pushing your locked files:'' [], Printed ''* %s'' [''mine.psd''],
       Awaited],
      AwaitFailed ''transfer failed'')"
proof -
  have loop: "read_loop bob_env (lockSet [bob_lock]) [line_main] no_locks_seen =
      ([Traced ''pre-push: %s'' [line_main], Uploaded ''abc123''],
       Inr \<lparr>lockConflicts = [], myLocks = [''mine.psd'']\<rparr>)"
    by (simp add: loop_body_line_main bob_env_fields lockSet_bob_lock no_locks_seen_fields)
       (simp add: bob_lock_def no_locks_seen_def)
  have out: "snd (prePushCommand bob_env [line_main]) = AwaitFailed ''transfer failed''"
    unfolding prePushCommand_run [OF startup_bob_env] loop
    by (simp add: drain_def bob_env_fields)
  from owned_report_precedes_Await [OF startup_bob_env loop] out
  show ?thesis
    by (simp add: bob_env_fields prod_eq_iff)
qed

end
